theory Spec2Isabelle
  imports Complex_Main "HOL-Library.List_Lexorder" "HOL-Library.Char_ord" "HOL-Library.Multiset"
begin

section \<open>Data model of \<^verbatim>\<open>src/src/App.jsx\<close>\<close>

text \<open>
  The object \<^verbatim>\<open>Result\<close> holds the three feedback values. A word is a JavaScript string,
  here a \<^typ>\<open>string\<close>; \<^verbatim>\<open>split("")\<close> turns it into the array of its characters, which is the
  character list itself. A history entry is the object \<^verbatim>\<open>{ guess, feedback }\<close>, a suggestion
  the object \<^verbatim>\<open>{ guess, bits }\<close> (its first field is written \<open>guess_s\<close>, since two records
  cannot share a field name).
\<close>

datatype Result = CORRECT | PRESENT | ABSENT

record HistoryEntry =
  guess :: string
  feedback :: "Result list"

record Suggestion =
  guess_s :: string
  bits :: real

text \<open>
  Reading an array at an index: JavaScript yields \<^verbatim>\<open>undefined\<close> past the end, here \<open>None\<close>.
  The strict equality \<^verbatim>\<open>g[i] === a[j]\<close> is then equality of options: two characters are
  compared as characters, \<^verbatim>\<open>undefined === undefined\<close> is true, and a character never equals
  \<^verbatim>\<open>undefined\<close>.
\<close>

definition js_index :: "'a list \<Rightarrow> nat \<Rightarrow> 'a option" where
  "js_index xs i = (if i < length xs then Some (xs ! i) else None)"

section \<open>\<^verbatim>\<open>feedbackFor\<close>\<close>

text \<open>
  The state of both loops is the pair of the arrays \<^verbatim>\<open>res\<close> and \<^verbatim>\<open>aUsed\<close>, each of length 5.
  \<open>firstPass\<close> is the body of the first loop at index \<open>i\<close>.
\<close>

definition firstPass :: "string \<Rightarrow> string \<Rightarrow> Result list \<times> bool list \<Rightarrow> nat \<Rightarrow> Result list \<times> bool list" where
  "firstPass g a s i =
     (case s of (res, aUsed) \<Rightarrow>
        if js_index g i = js_index a i then (res[i := CORRECT], aUsed[i := True])
        else (res, aUsed))"

text \<open>
  The inner loop of the second pass, from index \<open>j\<close> on: a used answer position is skipped
  (\<^verbatim>\<open>continue\<close>), the first unused one that holds the guess letter is taken and ends the loop
  (\<^verbatim>\<open>break\<close>).
\<close>

function scanAnswer :: "string \<Rightarrow> string \<Rightarrow> nat \<Rightarrow> nat \<Rightarrow> Result list \<times> bool list \<Rightarrow> Result list \<times> bool list" where
  "scanAnswer g a i j (res, aUsed) =
     (if j < 5 then
        (if aUsed ! j then scanAnswer g a i (Suc j) (res, aUsed)
         else if js_index g i = js_index a j then (res[i := PRESENT], aUsed[j := True])
         else scanAnswer g a i (Suc j) (res, aUsed))
      else (res, aUsed))"
  by pat_completeness auto
termination
  by (relation "measure (\<lambda>(g, a, i, j, s). 5 - j)") auto

definition secondPass :: "string \<Rightarrow> string \<Rightarrow> Result list \<times> bool list \<Rightarrow> nat \<Rightarrow> Result list \<times> bool list" where
  "secondPass g a s i =
     (case s of (res, aUsed) \<Rightarrow>
        if res ! i = CORRECT then (res, aUsed) else scanAnswer g a i 0 (res, aUsed))"

definition feedbackFor :: "string \<Rightarrow> string \<Rightarrow> Result list" where
  "feedbackFor guess_word answer_word =
     (let g = guess_word; a = answer_word;
          s0 = (replicate 5 ABSENT, replicate 5 False);
          s1 = foldl (firstPass g a) s0 [0..<5];
          s2 = foldl (secondPass g a) s1 [0..<5]
      in fst s2)"

section \<open>\<^verbatim>\<open>feedbackKey\<close>\<close>

fun resultName :: "Result \<Rightarrow> string" where
  "resultName CORRECT = ''CORRECT''"
| "resultName PRESENT = ''PRESENT''"
| "resultName ABSENT = ''ABSENT''"

fun join :: "string \<Rightarrow> string list \<Rightarrow> string" where
  "join sep [] = []"
| "join sep [x] = x"
| "join sep (x # y # ys) = x @ sep @ join sep (y # ys)"

definition feedbackKey :: "Result list \<Rightarrow> string" where
  "feedbackKey fb = join ''|'' (map resultName fb)"

section \<open>\<^verbatim>\<open>filterCandidates\<close>\<close>

text \<open>
  An argument that may be \<^verbatim>\<open>null\<close> or \<^verbatim>\<open>undefined\<close> is an option: the test \<^verbatim>\<open>!words\<close> holds
  exactly of \<open>None\<close>, since every array, the empty one too, is truthy.
  \<open>sameFeedback\<close> is the comparison of the two arrays inside the loop over the history:
  different lengths or a differing index make the callback return \<^verbatim>\<open>false\<close>.
\<close>

definition sameFeedback :: "Result list \<Rightarrow> Result list \<Rightarrow> bool" where
  "sameFeedback expected actual =
     (if length expected \<noteq> length actual then False
      else \<not> list_ex (\<lambda>i. expected ! i \<noteq> actual ! i) [0..<length expected])"

fun consistent :: "HistoryEntry list \<Rightarrow> string \<Rightarrow> bool" where
  "consistent [] candidate = True"
| "consistent (h # hs) candidate =
     (if sameFeedback (feedback h) (feedbackFor (guess h) candidate)
      then consistent hs candidate else False)"

definition filterCandidates :: "string list option \<Rightarrow> HistoryEntry list option \<Rightarrow> string list" where
  "filterCandidates words history =
     (case words of
        None \<Rightarrow> []
      | Some ws \<Rightarrow>
          if length ws = 0 then []
          else (case history of
                  None \<Rightarrow> ws
                | Some hs \<Rightarrow> if length hs = 0 then ws else filter (consistent hs) ws))"

section \<open>\<^verbatim>\<open>computeEntropyForGuess\<close>\<close>

text \<open>
  The object \<^verbatim>\<open>counts\<close> is an association list in insertion order, the order in which
  \<^verbatim>\<open>for (const k in counts)\<close> visits its keys. JavaScript computes the quotient, the logarithm
  and the sum in IEEE double precision; the model takes them over the reals, so it says
  nothing about rounding.
\<close>

fun bump :: "string \<Rightarrow> (string \<times> nat) list \<Rightarrow> (string \<times> nat) list" where
  "bump key [] = [(key, 1)]"
| "bump key ((k, c) # counts) =
     (if key = k then (k, c + 1) # counts else (k, c) # bump key counts)"

definition countFeedback :: "string \<Rightarrow> string list \<Rightarrow> (string \<times> nat) list" where
  "countFeedback g candidates =
     foldl (\<lambda>counts ans. bump (feedbackKey (feedbackFor g ans)) counts) [] candidates"

definition computeEntropyForGuess :: "string \<Rightarrow> string list option \<Rightarrow> real" where
  "computeEntropyForGuess g candidates =
     (case candidates of
        None \<Rightarrow> 0
      | Some cs \<Rightarrow>
          if length cs = 0 then 0
          else (let counts = countFeedback g cs;
                    n = real (length cs)
                in foldl (\<lambda>entropy (k, c). entropy + - (real c / n) * log 2 (real c / n)) 0 counts))"

section \<open>\<^verbatim>\<open>mostLikelyCandidate\<close>\<close>

definition mostLikelyCandidate :: "string list option \<Rightarrow> string option" where
  "mostLikelyCandidate candidates =
     (case candidates of
        None \<Rightarrow> None
      | Some cs \<Rightarrow> if length cs = 0 then None else Some (cs ! 0))"

section \<open>The ranking effect of \<^verbatim>\<open>App\<close>\<close>

text \<open>
  \<^verbatim>\<open>Array.prototype.sort\<close> with a comparator is a stable sort: \<open>x\<close> goes before \<open>y\<close> when the
  comparator is negative, and elements it calls equal keep their order. For a comparator
  that is a difference of keys every stable sort returns the same array; the model is the
  stable insertion sort. The comparator of the effect is \<^verbatim>\<open>(a, b) => b.bits - a.bits\<close>.
\<close>

fun insertBy :: "('a \<Rightarrow> 'a \<Rightarrow> real) \<Rightarrow> 'a \<Rightarrow> 'a list \<Rightarrow> 'a list" where
  "insertBy cmp x [] = [x]"
| "insertBy cmp x (y # ys) = (if cmp x y \<le> 0 then x # y # ys else y # insertBy cmp x ys)"

definition array_sort :: "('a \<Rightarrow> 'a \<Rightarrow> real) \<Rightarrow> 'a list \<Rightarrow> 'a list" where
  "array_sort cmp xs = foldr (insertBy cmp) xs []"

definition byBits :: "Suggestion \<Rightarrow> Suggestion \<Rightarrow> real" where
  "byBits a b = bits b - bits a"

definition selectTop :: "Suggestion list \<Rightarrow> Suggestion list" where
  "selectTop ent = take 10 (array_sort byBits ent)"

text \<open>
  The whole effect, from the dictionary and the history to the ten suggestions shown. Its
  bits are the real-valued entropies of the model above, so where rounding in double
  precision makes or breaks a tie between two words the effect of the code can order them
  differently. The statements about the order of the suggestions are about \<open>selectTop\<close>, on
  any list of suggestions, and do not depend on how the bits were computed.
\<close>

definition topGuesses :: "string list option \<Rightarrow> HistoryEntry list option \<Rightarrow> Suggestion list" where
  "topGuesses words history =
     (let cands = filterCandidates words history;
          ent = map (\<lambda>g. \<lparr>guess_s = g, bits = computeEntropyForGuess g (Some cands)\<rparr>) cands
      in selectTop ent)"

section \<open>The two-pass algorithm as the specification words it\<close>

text \<open>
  A second definition of the feedback, following the specification and not the code:
  pass 1 marks the positions where guess and answer agree and consumes them; pass 2 goes
  through the positions in order and, at one not marked CORRECT, looks for the first
  answer position, from the left, that is not consumed and holds the guess letter. It
  keeps the consumed positions as a set and builds the result position by position.
\<close>

definition spec_pass1 :: "string \<Rightarrow> string \<Rightarrow> nat set" where
  "spec_pass1 g a = set (filter (\<lambda>i. g ! i = a ! i) [0..<5])"

definition spec_mark :: "string \<Rightarrow> string \<Rightarrow> nat set \<Rightarrow> nat \<Rightarrow> Result \<times> nat set" where
  "spec_mark g a used i =
     (if g ! i = a ! i then (CORRECT, used)
      else (case find (\<lambda>j. j \<notin> used \<and> a ! j = g ! i) [0..<5] of
              None \<Rightarrow> (ABSENT, used)
            | Some j \<Rightarrow> (PRESENT, insert j used)))"

fun spec_pass2 :: "string \<Rightarrow> string \<Rightarrow> nat set \<Rightarrow> nat list \<Rightarrow> Result list \<times> nat set" where
  "spec_pass2 g a used [] = ([], used)"
| "spec_pass2 g a used (i # is) =
     (case spec_mark g a used i of (r, used') \<Rightarrow>
        (case spec_pass2 g a used' is of (rs, used'') \<Rightarrow> (r # rs, used'')))"

definition spec_classify :: "string \<Rightarrow> string \<Rightarrow> Result list" where
  "spec_classify g a = fst (spec_pass2 g a (spec_pass1 g a) [0..<5])"

section \<open>Properties of \<^verbatim>\<open>feedbackFor\<close>\<close>

lemma feedbackFor_sheep_speed:
  "feedbackFor ''sheep'' ''speed'' = [CORRECT, ABSENT, CORRECT, CORRECT, PRESENT]"
  by code_simp

lemma upt_5: "[0..<5] = [0, 1, 2, 3, 4]"
  by (simp add: upt_rec)

lemma nth_list_update_any:
  "xs[i := v] ! k = (if k = i \<and> i < length xs then v else xs ! k)"
  by (cases "i < length xs") (auto simp: nth_list_update list_update_beyond)

text \<open>After the first loop, \<open>res\<close> and \<open>aUsed\<close> record the positions where the two words agree.\<close>

lemma firstPass_result:
  "foldl (firstPass g a) (replicate 5 ABSENT, replicate 5 False) [0..<5] =
     (map (\<lambda>i. if js_index g i = js_index a i then CORRECT else ABSENT) [0..<5],
      map (\<lambda>i. js_index g i = js_index a i) [0..<5])"
  by (simp add: upt_5 firstPass_def eval_nat_numeral)

text \<open>The inner loop finds the first unused answer position that holds the guess letter.\<close>

lemma scanAnswer_find:
  "scanAnswer g a i j (res, aUsed) =
     (case find (\<lambda>k. \<not> aUsed ! k \<and> js_index g i = js_index a k) [j..<5] of
        None \<Rightarrow> (res, aUsed)
      | Some k \<Rightarrow> (res[i := PRESENT], aUsed[k := True]))"
proof (induction g a i j "(res, aUsed)" rule: scanAnswer.induct)
  case (1 g a i j)
  show ?case
  proof (cases "j < 5")
    case True
    then have "[j..<5] = j # [Suc j..<5]"
      by (simp add: upt_conv_Cons)
    with True 1 show ?thesis
      by (simp del: scanAnswer.simps add: scanAnswer.simps [of g a i j])
  next
    case False
    then show ?thesis by simp
  qed
qed

lemma secondPass_length:
  "secondPass g a (res, aUsed) i = (res', aUsed') \<Longrightarrow>
     length res' = length res \<and> length aUsed' = length aUsed"
  by (auto simp: secondPass_def scanAnswer_find split: if_splits option.splits simp del: scanAnswer.simps)

text \<open>The second loop neither adds nor removes a CORRECT mark.\<close>

lemma secondPass_CORRECT:
  "secondPass g a (res, aUsed) i = (res', aUsed') \<Longrightarrow>
     (res' ! k = CORRECT) = (res ! k = CORRECT)"
  by (auto simp: secondPass_def scanAnswer_find nth_list_update_any
      split: if_splits option.splits simp del: scanAnswer.simps)

lemma foldl_secondPass_inv:
  "foldl (secondPass g a) (res, aUsed) is = (res', aUsed') \<Longrightarrow>
     length res' = length res \<and> (\<forall>k. (res' ! k = CORRECT) = (res ! k = CORRECT))"
proof (induction "is" arbitrary: res aUsed)
  case Nil
  then show ?case by simp
next
  case (Cons i "is")
  obtain r1 u1 where s: "secondPass g a (res, aUsed) i = (r1, u1)"
    by (cases "secondPass g a (res, aUsed) i")
  with Cons.prems have "foldl (secondPass g a) (r1, u1) is = (res', aUsed')"
    by simp
  from Cons.IH [OF this] secondPass_length [OF s] secondPass_CORRECT [OF s]
  show ?case by simp
qed

lemma feedbackFor_length: "length (feedbackFor g a) = 5"
proof -
  obtain res' aUsed' where f: "foldl (secondPass g a)
      (map (\<lambda>i. if js_index g i = js_index a i then CORRECT else ABSENT) [0..<5],
       map (\<lambda>i. js_index g i = js_index a i) [0..<5]) [0..<5] = (res', aUsed')"
    by (meson surj_pair)
  from foldl_secondPass_inv [OF f] f show ?thesis
    by (simp add: feedbackFor_def firstPass_result)
qed

lemma feedbackFor_CORRECT_iff:
  assumes "i < 5"
  shows "(feedbackFor g a ! i = CORRECT) = (js_index g i = js_index a i)"
proof -
  obtain res' aUsed' where f: "foldl (secondPass g a)
      (map (\<lambda>i. if js_index g i = js_index a i then CORRECT else ABSENT) [0..<5],
       map (\<lambda>i. js_index g i = js_index a i) [0..<5]) [0..<5] = (res', aUsed')"
    by (meson surj_pair)
  from foldl_secondPass_inv [OF f] have "(res' ! i = CORRECT) =
      (map (\<lambda>i. if js_index g i = js_index a i then CORRECT else ABSENT) [0..<5] ! i = CORRECT)"
    by blast
  with assms f show ?thesis
    by (simp add: feedbackFor_def firstPass_result del: upt_Suc)
qed

section \<open>\<^verbatim>\<open>feedbackFor\<close> is the two-pass algorithm\<close>

text \<open>
  For 5-letter words every index the loops read is in range, so \<^verbatim>\<open>g[i] === a[j]\<close> compares
  two letters.
\<close>

lemma js_index_eq_nth:
  "length g = 5 \<Longrightarrow> length a = 5 \<Longrightarrow> i < 5 \<Longrightarrow> j < 5 \<Longrightarrow>
     (js_index g i = js_index a j) = (g ! i = a ! j)"
  by (simp add: js_index_def)

text \<open>
  One round of the second loop against one step of the specification: the array \<open>aUsed\<close>
  and the consumed set \<open>used\<close> hold the same positions before and after, and the round
  writes the specification's mark at position \<open>i\<close>.
\<close>

lemma secondPass_spec_mark:
  assumes len: "length g = 5" "length a = 5"
    and i: "i < 5"
    and res: "length res = 5" "res ! i = (if g ! i = a ! i then CORRECT else ABSENT)"
    and used: "length aUsed = 5" "\<forall>j<5. aUsed ! j = (j \<in> used)"
  shows "\<exists>aUsed'. secondPass g a (res, aUsed) i = (res[i := fst (spec_mark g a used i)], aUsed')
           \<and> length aUsed' = 5 \<and> (\<forall>j<5. aUsed' ! j = (j \<in> snd (spec_mark g a used i)))"
proof (cases "g ! i = a ! i")
  case True
  have "res[i := CORRECT] = res"
    using res(2) True list_update_id [of res i] by simp
  with True res used show ?thesis
    by (simp add: secondPass_def spec_mark_def)
next
  case False
  have keep: "res[i := ABSENT] = res"
    using res(2) False list_update_id [of res i] by simp
  have f: "find (\<lambda>k. \<not> aUsed ! k \<and> js_index g i = js_index a k) [0..<5] =
           find (\<lambda>j. j \<notin> used \<and> a ! j = g ! i) [0..<5]"
    using len i used by (intro find_cong) (auto simp: js_index_eq_nth)
  show ?thesis
  proof (cases "find (\<lambda>j. j \<notin> used \<and> a ! j = g ! i) [0..<5]")
    case None
    with False f res used keep show ?thesis
      by (simp add: secondPass_def spec_mark_def scanAnswer_find del: scanAnswer.simps)
  next
    case (Some k)
    then have "k < 5"
      by (auto simp: find_Some_iff)
    with Some False f res used show ?thesis
      by (auto simp: secondPass_def spec_mark_def scanAnswer_find nth_list_update simp del: scanAnswer.simps)
  qed
qed

lemma foldl_secondPass_spec_pass2:
  assumes len: "length g = 5" "length a = 5"
  shows "distinct is \<Longrightarrow> \<forall>i\<in>set is. i < 5 \<Longrightarrow> length res = 5 \<Longrightarrow>
     \<forall>i\<in>set is. res ! i = (if g ! i = a ! i then CORRECT else ABSENT) \<Longrightarrow>
     length aUsed = 5 \<Longrightarrow> \<forall>j<5. aUsed ! j = (j \<in> used) \<Longrightarrow>
     length (fst (foldl (secondPass g a) (res, aUsed) is)) = 5
     \<and> map ((!) (fst (foldl (secondPass g a) (res, aUsed) is))) is = fst (spec_pass2 g a used is)
     \<and> (\<forall>k. k \<notin> set is \<longrightarrow> fst (foldl (secondPass g a) (res, aUsed) is) ! k = res ! k)"
proof (induction "is" arbitrary: res aUsed used)
  case Nil
  then show ?case by simp
next
  case (Cons i "is")
  let ?r = "fst (spec_mark g a used i)" and ?u = "snd (spec_mark g a used i)"
  from Cons.prems have i: "i < 5" and ni: "i \<notin> set is" by auto
  from secondPass_spec_mark [OF len i \<open>length res = 5\<close> _ \<open>length aUsed = 5\<close> \<open>\<forall>j<5. aUsed ! j = (j \<in> used)\<close>]
    Cons.prems(4)
  obtain aUsed' where step: "secondPass g a (res, aUsed) i = (res[i := ?r], aUsed')"
    and u': "length aUsed' = 5" "\<forall>j<5. aUsed' ! j = (j \<in> ?u)"
    by auto
  have pre: "\<forall>k\<in>set is. res[i := ?r] ! k = (if g ! k = a ! k then CORRECT else ABSENT)"
    using Cons.prems(4) ni by (auto simp: nth_list_update_any)
  have IH: "length (fst (foldl (secondPass g a) (res[i := ?r], aUsed') is)) = 5
     \<and> map ((!) (fst (foldl (secondPass g a) (res[i := ?r], aUsed') is))) is = fst (spec_pass2 g a ?u is)
     \<and> (\<forall>k. k \<notin> set is \<longrightarrow> fst (foldl (secondPass g a) (res[i := ?r], aUsed') is) ! k = res[i := ?r] ! k)"
    using Cons.prems by (intro Cons.IH pre u') auto
  then have "fst (foldl (secondPass g a) (res[i := ?r], aUsed') is) ! i = ?r"
    using ni i \<open>length res = 5\<close> by simp
  with IH show ?case
    by (auto simp: step split: prod.splits simp: nth_list_update_any)
qed

lemma feedbackFor_refines_spec:
  assumes len: "length g = 5" "length a = 5"
  shows "feedbackFor g a = spec_classify g a"
proof -
  let ?res = "map (\<lambda>i. if js_index g i = js_index a i then CORRECT else ABSENT) [0..<5]"
  let ?used = "map (\<lambda>i. js_index g i = js_index a i) [0..<5]"
  let ?out = "fst (foldl (secondPass g a) (?res, ?used) [0..<5])"
  have "length ?out = 5 \<and> map ((!) ?out) [0..<5] = fst (spec_pass2 g a (spec_pass1 g a) [0..<5])
     \<and> (\<forall>k. k \<notin> set [0..<5] \<longrightarrow> ?out ! k = ?res ! k)"
    using len by (intro foldl_secondPass_spec_pass2) (auto simp: js_index_eq_nth spec_pass1_def simp del: upt_Suc)
  then have "length ?out = 5" and m: "map ((!) ?out) [0..<length ?out] = spec_classify g a"
    by (simp_all add: spec_classify_def)
  from m have "?out = spec_classify g a"
    by (simp only: map_nth)
  then show ?thesis
    by (simp add: feedbackFor_def firstPass_result)
qed

text \<open>
  Claim C2. For every pair of 5-letter words, \<open>feedbackFor\<close> computes the two-pass
  algorithm \<open>spec_classify\<close>: pass 1 marks position \<open>i\<close> CORRECT and consumes answer
  position \<open>i\<close> whenever the letters at \<open>i\<close> agree; pass 2, for each position not CORRECT, in
  order, scans the answer positions from the left and marks PRESENT, consuming the first
  unconsumed answer position that holds the guess letter, and marks ABSENT when there is none.
\<close>

theorem feedbackFor_two_pass:
  "length g = 5 \<Longrightarrow> length a = 5 \<Longrightarrow> feedbackFor g a = spec_classify g a"
  by (rule feedbackFor_refines_spec)

theorem feedbackFor_two_pass_witness:
  "length ''sheep'' = 5 \<and> length ''speed'' = 5
   \<and> feedbackFor ''sheep'' ''speed'' = spec_classify ''sheep'' ''speed''
   \<and> spec_classify ''sheep'' ''speed'' = [CORRECT, ABSENT, CORRECT, CORRECT, PRESENT]"
proof -
  have "spec_classify ''sheep'' ''speed'' = [CORRECT, ABSENT, CORRECT, CORRECT, PRESENT]"
    by code_simp
  then show ?thesis
    using feedbackFor_two_pass [of "''sheep''" "''speed''"] by simp
qed

section \<open>Duplicate letters\<close>

text \<open>
  The specification's pass 2 over a list of positions that is split in two, and its mark
  at one position in terms of the positions consumed before it.
\<close>

lemma spec_pass2_Cons_fst:
  "fst (spec_pass2 g a U (i # is)) =
     fst (spec_mark g a U i) # fst (spec_pass2 g a (snd (spec_mark g a U i)) is)"
  by (simp split: prod.splits)

lemma spec_pass2_Cons_snd:
  "snd (spec_pass2 g a U (i # is)) = snd (spec_pass2 g a (snd (spec_mark g a U i)) is)"
  by (simp split: prod.splits)

lemma spec_pass2_append:
  "spec_pass2 g a U (xs @ ys) =
     (fst (spec_pass2 g a U xs) @ fst (spec_pass2 g a (snd (spec_pass2 g a U xs)) ys),
      snd (spec_pass2 g a (snd (spec_pass2 g a U xs)) ys))"
  by (induction xs arbitrary: U) (auto split: prod.splits)

lemma length_spec_pass2: "length (fst (spec_pass2 g a U xs)) = length xs"
  by (induction xs arbitrary: U) (simp_all add: spec_pass2_Cons_fst del: spec_pass2.simps(2))

lemma upt_split_at: "i < n \<Longrightarrow> [0..<n] = [0..<i] @ i # [Suc i..<n]"
  by (metis le_add2 less_imp_add_positive plus_nat.add_0 upt_add_eq_append upt_conv_Cons add.commute less_or_eq_imp_le)

lemma spec_pass2_nth:
  assumes "i < n"
  shows "fst (spec_pass2 g a U [0..<n]) ! i = fst (spec_mark g a (snd (spec_pass2 g a U [0..<i])) i)"
proof -
  have "fst (spec_pass2 g a U [0..<n]) ! i =
      (fst (spec_pass2 g a U [0..<i]) @ fst (spec_pass2 g a (snd (spec_pass2 g a U [0..<i])) (i # [Suc i..<n]))) ! i"
    by (subst upt_split_at [OF assms]) (simp add: spec_pass2_append del: spec_pass2.simps)
  then show ?thesis
    by (simp add: nth_append length_spec_pass2 split: prod.splits)
qed

lemma spec_pass2_used_split:
  assumes "i < n"
  shows "snd (spec_pass2 g a U [0..<n]) =
     snd (spec_pass2 g a (snd (spec_mark g a (snd (spec_pass2 g a U [0..<i])) i)) [Suc i..<n])"
  by (subst upt_split_at [OF assms]) (simp add: spec_pass2_append split: prod.splits)

text \<open>
  When the answer holds the letter \<open>x\<close> at the single position \<open>p\<close>, a guess position
  holding \<open>x\<close> that is not CORRECT is PRESENT exactly when \<open>p\<close> is not consumed yet, and a
  guess position holding another letter leaves \<open>p\<close> as it is.
\<close>

lemma find_this: "find (\<lambda>j. Q j \<and> j = p) xs = (if Q p \<and> p \<in> set xs then Some p else None)"
  by (induction xs) auto

lemma spec_mark_unique:
  assumes uniq: "\<forall>k<5. (a ! k = x) = (k = p)" and p: "p < 5"
    and i: "g ! i = x" "g ! i \<noteq> a ! i"
  shows "spec_mark g a U i = (if p \<in> U then (ABSENT, U) else (PRESENT, insert p U))"
proof -
  have "find (\<lambda>j. j \<notin> U \<and> a ! j = g ! i) [0..<5] = find (\<lambda>j. j \<notin> U \<and> j = p) [0..<5]"
    using uniq i by (intro find_cong) auto
  also have "\<dots> = (if p \<in> U then None else Some p)"
    using p by (simp add: find_this del: upt_Suc)
  finally show ?thesis
    using i by (simp add: spec_mark_def)
qed

lemma spec_mark_other:
  assumes uniq: "\<forall>k<5. (a ! k = x) = (k = p)" and i: "g ! i \<noteq> x"
  shows "(p \<in> snd (spec_mark g a U i)) = (p \<in> U)"
proof (cases "find (\<lambda>j. j \<notin> U \<and> a ! j = g ! i) [0..<5]")
  case None
  then show ?thesis by (simp add: spec_mark_def)
next
  case (Some k)
  then have "k < 5" "a ! k = g ! i"
    by (auto simp: find_Some_iff)
  with uniq i have "k \<noteq> p" by auto
  with Some show ?thesis by (auto simp: spec_mark_def)
qed

lemma spec_pass2_other:
  assumes uniq: "\<forall>k<5. (a ! k = x) = (k = p)"
  shows "\<forall>i\<in>set xs. g ! i \<noteq> x \<Longrightarrow> (p \<in> snd (spec_pass2 g a U xs)) = (p \<in> U)"
proof (induction xs arbitrary: U)
  case Nil
  then show ?case by simp
next
  case (Cons i xs)
  then have "(p \<in> snd (spec_pass2 g a (snd (spec_mark g a U i)) xs)) = (p \<in> snd (spec_mark g a U i))"
    by simp
  with spec_mark_other [OF uniq, of g i U] Cons.prems show ?case
    by (simp add: spec_pass2_Cons_snd del: spec_pass2.simps(2))
qed

text \<open>Occurrence counts as statements about positions.\<close>

lemma occurrences_as_positions:
  "card {k. xs ! k = x \<and> k < length xs} = count_list xs x"
proof -
  have "{k. xs ! k = x \<and> k < length xs} = {k. k < length xs \<and> x = xs ! k}"
    by auto
  then show ?thesis
    by (simp add: count_list_eq_length_filter length_filter_conv_card)
qed

lemma count_one_unique:
  assumes "count_list a x = 1"
  obtains p where "p < length a" "\<forall>k<length a. (a ! k = x) = (k = p)"
proof -
  from assms have "card {k. a ! k = x \<and> k < length a} = 1"
    by (simp add: occurrences_as_positions)
  then obtain p where "{k. a ! k = x \<and> k < length a} = {p}"
    by (auto simp: card_1_singleton_iff)
  then have "p < length a" "\<forall>k<length a. (a ! k = x) = (k = p)"
    by auto
  then show ?thesis by (rule that)
qed

lemma count_two_only:
  assumes "count_list g x = 2" "i < j" "j < length g" "g ! i = x" "g ! j = x"
  shows "\<forall>k<length g. (g ! k = x) = (k = i \<or> k = j)"
proof -
  let ?S = "{k. g ! k = x \<and> k < length g}"
  have "finite ?S" by simp
  moreover have "{i, j} \<subseteq> ?S" using assms by auto
  moreover have "card ?S \<le> card {i, j}"
    using assms by (simp add: occurrences_as_positions)
  ultimately have "{i, j} = ?S"
    by (rule card_seteq)
  then show ?thesis by auto
qed

lemma spec_classify_duplicate_letter:
  assumes len: "length g = 5" "length a = 5"
    and ij: "i < j" "j < 5" "g ! i = x" "g ! j = x"
    and cg: "count_list g x = 2" and ca: "count_list a x = 1"
  shows "(spec_classify g a ! i, spec_classify g a ! j) =
           (if a ! i = x then (CORRECT, ABSENT)
            else if a ! j = x then (ABSENT, CORRECT)
            else (PRESENT, ABSENT))"
proof -
  from count_one_unique [OF ca] len obtain p
    where p: "p < 5" and uniq: "\<forall>k<5. (a ! k = x) = (k = p)"
    by metis
  from count_two_only [OF cg ij(1) _ ij(3,4)] len ij
  have only: "\<forall>k<5. (g ! k = x) = (k = i \<or> k = j)"
    by simp
  let ?U0 = "spec_pass1 g a"
  let ?Ui = "snd (spec_pass2 g a ?U0 [0..<i])"
  let ?Uj = "snd (spec_pass2 g a ?U0 [0..<j])"
  have i5: "i < 5" using ij by simp
  have fi: "spec_classify g a ! i = fst (spec_mark g a ?Ui i)"
    unfolding spec_classify_def using i5 by (rule spec_pass2_nth)
  have fj: "spec_classify g a ! j = fst (spec_mark g a ?Uj j)"
    unfolding spec_classify_def using ij(2) by (rule spec_pass2_nth)
  have U0: "(p \<in> ?U0) = (p = i \<or> p = j)"
    using p uniq only by (auto simp: spec_pass1_def simp del: upt_Suc)
  have Ui: "(p \<in> ?Ui) = (p \<in> ?U0)"
    using only ij by (intro spec_pass2_other [OF uniq]) auto
  have Uj: "(p \<in> ?Uj) = (p \<in> snd (spec_mark g a ?Ui i))"
    unfolding spec_pass2_used_split [OF ij(1)]
    using only ij by (intro spec_pass2_other [OF uniq]) auto
  have ai: "(a ! i = x) = (p = i)" and aj: "(a ! j = x) = (p = j)"
    using uniq i5 ij(2) by auto
  consider (at_i) "p = i" | (at_j) "p = j" | (elsewhere) "p \<noteq> i" "p \<noteq> j"
    by blast
  then show ?thesis
  proof cases
    case at_i
    then have "g ! i = a ! i" using ij ai by simp
    then have mi: "spec_mark g a ?Ui i = (CORRECT, ?Ui)"
      by (simp add: spec_mark_def)
    have "p \<in> ?Uj" using Uj mi Ui U0 at_i by simp
    moreover have "g ! j \<noteq> a ! j" using ij aj at_i by auto
    ultimately have "spec_mark g a ?Uj j = (ABSENT, ?Uj)"
      using spec_mark_unique [OF uniq p ij(4), of ?Uj] by simp
    with mi fi fj ai at_i show ?thesis by simp
  next
    case at_j
    then have ne: "g ! i \<noteq> a ! i" using ij ai by auto
    have "p \<in> ?Ui" using Ui U0 at_j by simp
    with spec_mark_unique [OF uniq p ij(3) ne, of ?Ui]
    have mi: "spec_mark g a ?Ui i = (ABSENT, ?Ui)" by simp
    have "g ! j = a ! j" using ij aj at_j by simp
    then have "spec_mark g a ?Uj j = (CORRECT, ?Uj)"
      by (simp add: spec_mark_def)
    with mi fi fj ai aj at_j ij show ?thesis by simp
  next
    case elsewhere
    then have ne: "g ! i \<noteq> a ! i" "g ! j \<noteq> a ! j" using ij ai aj by auto
    have "p \<notin> ?Ui" using Ui U0 elsewhere by simp
    with spec_mark_unique [OF uniq p ij(3) ne(1), of ?Ui]
    have mi: "spec_mark g a ?Ui i = (PRESENT, insert p ?Ui)" by simp
    then have "p \<in> ?Uj" using Uj by simp
    with spec_mark_unique [OF uniq p ij(4) ne(2), of ?Uj]
    have "spec_mark g a ?Uj j = (ABSENT, ?Uj)" by simp
    with mi fi fj ai aj elsewhere show ?thesis by simp
  qed
qed

text \<open>
  Claim C3. For every 5-letter guess that holds a letter \<open>x\<close> exactly twice, at positions
  \<open>i < j\<close>, and every 5-letter answer that holds \<open>x\<close> exactly once, \<open>feedbackFor\<close> marks one of
  the two guess positions PRESENT or CORRECT and the other ABSENT, and never both PRESENT;
  the mark is CORRECT exactly where the answer holds \<open>x\<close> at the same position.
\<close>

theorem feedbackFor_duplicate_letter:
  assumes "length g = 5" and "length a = 5"
    and "i < j" and "j < 5" and "g ! i = x" and "g ! j = x"
    and "count_list g x = 2" and "count_list a x = 1"
  shows "(((feedbackFor g a ! i = PRESENT \<or> feedbackFor g a ! i = CORRECT) \<and> feedbackFor g a ! j = ABSENT)
          \<or> (feedbackFor g a ! i = ABSENT \<and> (feedbackFor g a ! j = PRESENT \<or> feedbackFor g a ! j = CORRECT)))
       \<and> \<not> (feedbackFor g a ! i = PRESENT \<and> feedbackFor g a ! j = PRESENT)
       \<and> ((feedbackFor g a ! i = CORRECT) = (a ! i = x))
       \<and> ((feedbackFor g a ! j = CORRECT) = (a ! j = x))"
proof -
  have "(feedbackFor g a ! i, feedbackFor g a ! j) =
           (if a ! i = x then (CORRECT, ABSENT)
            else if a ! j = x then (ABSENT, CORRECT)
            else (PRESENT, ABSENT))"
    using assms by (simp only: feedbackFor_refines_spec spec_classify_duplicate_letter)
  moreover have "\<not> (a ! i = x \<and> a ! j = x)"
    using count_one_unique [OF assms(8)] assms(2,3,4) by (metis less_trans nat_neq_iff)
  ultimately show ?thesis
    by (auto split: if_splits)
qed

theorem feedbackFor_duplicate_letter_witness:
  "count_list ''sheep'' (CHR ''e'') = 2 \<and> count_list ''crane'' (CHR ''e'') = 1
   \<and> ''sheep'' ! 2 = CHR ''e'' \<and> ''sheep'' ! 3 = CHR ''e''
   \<and> feedbackFor ''sheep'' ''crane'' ! 2 = PRESENT
   \<and> feedbackFor ''sheep'' ''crane'' ! 3 = ABSENT"
proof -
  have f: "feedbackFor ''sheep'' ''crane'' = [ABSENT, ABSENT, PRESENT, ABSENT, ABSENT]"
    by code_simp
  have h: "length ''sheep'' = 5" "length ''crane'' = 5" "(2::nat) < 3" "(3::nat) < 5"
    "''sheep'' ! 2 = CHR ''e''" "''sheep'' ! 3 = CHR ''e''"
    "count_list ''sheep'' (CHR ''e'') = 2" "count_list ''crane'' (CHR ''e'') = 1"
    by simp_all
  from feedbackFor_duplicate_letter [OF h] h show ?thesis
    by (simp add: f)
qed

section \<open>Properties of \<^verbatim>\<open>filterCandidates\<close>\<close>

lemma sameFeedback_iff: "sameFeedback expected actual \<longleftrightarrow> expected = actual"
proof (cases "length expected = length actual")
  case True
  then show ?thesis
    by (auto simp: sameFeedback_def list_ex_iff intro: nth_equalityI)
next
  case False
  then show ?thesis
    by (auto simp: sameFeedback_def)
qed

lemma consistent_iff:
  "consistent hs c \<longleftrightarrow> (\<forall>h\<in>set hs. feedbackFor (guess h) c = feedback h)"
  by (induction hs) (auto simp: sameFeedback_iff)

lemma filterCandidates_filter:
  "filterCandidates (Some ws) (Some hs) =
     filter (\<lambda>c. \<forall>h\<in>set hs. feedbackFor (guess h) c = feedback h) ws"
proof -
  have "consistent hs = (\<lambda>c. \<forall>h\<in>set hs. feedbackFor (guess h) c = feedback h)"
    by (rule ext) (rule consistent_iff)
  then show ?thesis
    by (cases ws; cases hs) (simp_all add: filterCandidates_def del: consistent.simps)
qed

text \<open>
  Claim C1. For every dictionary and every history, \<open>filterCandidates\<close> retains a word \<open>c\<close>
  of the dictionary if and only if \<open>feedbackFor g c\<close> equals \<open>f\<close> for every entry \<open>(g, f)\<close> of
  the history; an empty dictionary gives the empty result and an empty history gives the
  whole dictionary.
\<close>

theorem filterCandidates_retains_iff:
  "(c \<in> set (filterCandidates (Some words) (Some history)) \<longleftrightarrow>
      c \<in> set words \<and> (\<forall>h\<in>set history. feedbackFor (guess h) c = feedback h))
   \<and> filterCandidates (Some []) (Some history) = []
   \<and> filterCandidates (Some words) (Some []) = words"
  by (simp add: filterCandidates_filter)

theorem filterCandidates_retains_iff_witness:
  "''trace'' \<in> set (filterCandidates (Some [''crane'', ''slate'', ''trace'', ''brake''])
       (Some [\<lparr>guess = ''crane'', feedback = [PRESENT, CORRECT, CORRECT, ABSENT, CORRECT]\<rparr>]))
   \<and> ''slate'' \<notin> set (filterCandidates (Some [''crane'', ''slate'', ''trace'', ''brake''])
       (Some [\<lparr>guess = ''crane'', feedback = [PRESENT, CORRECT, CORRECT, ABSENT, CORRECT]\<rparr>]))"
proof -
  have t: "feedbackFor ''crane'' ''trace'' = [PRESENT, CORRECT, CORRECT, ABSENT, CORRECT]"
    by code_simp
  have s: "feedbackFor ''crane'' ''slate'' \<noteq> [PRESENT, CORRECT, CORRECT, ABSENT, CORRECT]"
    by code_simp
  show ?thesis
    using filterCandidates_retains_iff [of "''trace''" "[''crane'', ''slate'', ''trace'', ''brake'']"
        "[\<lparr>guess = ''crane'', feedback = [PRESENT, CORRECT, CORRECT, ABSENT, CORRECT]\<rparr>]"]
      filterCandidates_retains_iff [of "''slate''" "[''crane'', ''slate'', ''trace'', ''brake'']"
        "[\<lparr>guess = ''crane'', feedback = [PRESENT, CORRECT, CORRECT, ABSENT, CORRECT]\<rparr>]"]
      t s
    by simp
qed

text \<open>
  Claim C5 (self-consistency). For every word \<open>w\<close> of the dictionary and every guess \<open>g\<close>,
  filtering the dictionary with the single history entry \<open>(g, feedbackFor g w)\<close> retains \<open>w\<close>.
  It holds for a guess of any length, so for every 5-letter guess.
\<close>

theorem filterCandidates_self_consistent:
  "w \<in> set words \<Longrightarrow>
     w \<in> set (filterCandidates (Some words) (Some [\<lparr>guess = g, feedback = feedbackFor g w\<rparr>]))"
  by (simp add: filterCandidates_filter)

theorem filterCandidates_self_consistent_witness:
  "''slate'' \<in> set (filterCandidates (Some [''crane'', ''slate'', ''trace''])
       (Some [\<lparr>guess = ''brake'', feedback = feedbackFor ''brake'' ''slate''\<rparr>]))"
  using filterCandidates_self_consistent [of "''slate''" "[''crane'', ''slate'', ''trace'']" "''brake''"]
  by simp

text \<open>
  Claim C6 (monotonicity). For every dictionary \<open>d\<close>, history \<open>h\<close> and further entry \<open>e\<close>, the
  result of \<open>filterCandidates\<close> on \<open>h\<close> with \<open>e\<close> appended is a subset of its result on \<open>h\<close> and
  is no longer. The same holds when \<open>e\<close> is put in front, which is how \<^verbatim>\<open>applyGuess\<close> extends
  the history.
\<close>

theorem filterCandidates_monotone:
  "set (filterCandidates (Some d) (Some (h @ [e]))) \<subseteq> set (filterCandidates (Some d) (Some h))
   \<and> length (filterCandidates (Some d) (Some (h @ [e]))) \<le> length (filterCandidates (Some d) (Some h))
   \<and> set (filterCandidates (Some d) (Some (e # h))) \<subseteq> set (filterCandidates (Some d) (Some h))"
proof -
  have "filterCandidates (Some d) (Some (h @ [e])) =
      filter (\<lambda>c. feedbackFor (guess e) c = feedback e) (filterCandidates (Some d) (Some h))"
    by (auto simp: filterCandidates_filter intro: filter_cong)
  moreover have "filterCandidates (Some d) (Some (e # h)) =
      filter (\<lambda>c. feedbackFor (guess e) c = feedback e) (filterCandidates (Some d) (Some h))"
    by (auto simp: filterCandidates_filter intro: filter_cong)
  ultimately show ?thesis by simp
qed

section \<open>Malformed words\<close>

text \<open>
  Claim C9 says that a guess or dictionary entry that is not exactly 5 characters long makes
  \<open>feedbackFor\<close> and \<open>filterCandidates\<close> signal a failure. Neither function checks a length
  or has a failure result: the 2-letter word \<open>ab\<close> is scored against \<open>abcde\<close> position by
  position, and as a dictionary entry it is retained.
\<close>

theorem feedbackFor_scores_short_word:
  "feedbackFor ''ab'' ''abcde'' = [CORRECT, CORRECT, ABSENT, ABSENT, ABSENT]
   \<and> feedbackFor ''ab'' ''ab'' = [CORRECT, CORRECT, CORRECT, CORRECT, CORRECT]
   \<and> filterCandidates (Some [''ab'', ''crane''])
        (Some [\<lparr>guess = ''abcde'', feedback = [CORRECT, CORRECT, ABSENT, ABSENT, ABSENT]\<rparr>]) = [''ab'']"
  by code_simp

text \<open>
  Claim C9 as amended. \<open>feedbackFor\<close> and \<open>filterCandidates\<close> validate nothing and signal no
  failure: for strings of any length \<open>feedbackFor\<close> returns five results, position \<open>i\<close> being
  CORRECT exactly when \<^verbatim>\<open>guess[i] === answer[i]\<close>, where a position past the end of a word
  reads as \<^verbatim>\<open>undefined\<close>; \<open>filterCandidates\<close> keeps a dictionary entry of any length exactly
  when that feedback equals the recorded one for every history entry.
\<close>

theorem feedbackFor_no_length_check:
  "length (feedbackFor g a) = 5
   \<and> (\<forall>i<5. (feedbackFor g a ! i = CORRECT) = (js_index g i = js_index a i))
   \<and> (c \<in> set (filterCandidates (Some ws) (Some hs)) \<longleftrightarrow>
        c \<in> set ws \<and> (\<forall>h\<in>set hs. feedbackFor (guess h) c = feedback h))"
  by (simp add: feedbackFor_length feedbackFor_CORRECT_iff filterCandidates_filter)

theorem feedbackFor_no_length_check_witness:
  "length (feedbackFor ''ab'' ''abcde'') = 5
   \<and> feedbackFor ''ab'' ''abcde'' ! 1 = CORRECT
   \<and> feedbackFor ''ab'' ''abcde'' ! 2 \<noteq> CORRECT
   \<and> ''ab'' \<in> set (filterCandidates (Some [''ab''])
        (Some [\<lparr>guess = ''abcde'', feedback = feedbackFor ''abcde'' ''ab''\<rparr>]))"
  using feedbackFor_no_length_check [of "''ab''" "''abcde''" "''ab''" "[''ab'']"
      "[\<lparr>guess = ''abcde'', feedback = feedbackFor ''abcde'' ''ab''\<rparr>]"]
  by (simp add: js_index_def)

section \<open>Properties of \<^verbatim>\<open>computeEntropyForGuess\<close> and \<^verbatim>\<open>mostLikelyCandidate\<close>\<close>

text \<open>
  Claim C10. For every guess \<open>g\<close>, \<open>computeEntropyForGuess\<close> returns 0 when the candidate
  array is empty and when it is absent (\<^verbatim>\<open>null\<close> or \<^verbatim>\<open>undefined\<close>): both are handled by the
  guard before any arithmetic.
\<close>

theorem computeEntropyForGuess_empty:
  "computeEntropyForGuess g (Some []) = 0 \<and> computeEntropyForGuess g None = 0"
  by (simp add: computeEntropyForGuess_def)

text \<open>
  Claim C8 says that \<open>mostLikelyCandidate\<close> returns the lexicographically first element of
  the candidates. On the candidates \<open>slate, crane\<close> it returns \<open>slate\<close>, while the
  lexicographically first one is \<open>crane\<close>.
\<close>

theorem mostLikelyCandidate_not_lexicographic:
  "mostLikelyCandidate (Some [''slate'', ''crane'']) = Some ''slate''
   \<and> Min (set [''slate'', ''crane'']) = ''crane''
   \<and> mostLikelyCandidate (Some [''slate'', ''crane'']) \<noteq> Some (Min (set [''slate'', ''crane'']))"
  by (simp add: mostLikelyCandidate_def)

text \<open>
  Claim C8 as amended. \<open>mostLikelyCandidate\<close> returns the first element of the candidate
  array, in the array's own order, when it is not empty, and none (\<^verbatim>\<open>null\<close>) when it is
  empty or absent.
\<close>

theorem mostLikelyCandidate_first:
  "mostLikelyCandidate (Some cs) = (case cs of [] \<Rightarrow> None | c # rest \<Rightarrow> Some c)
   \<and> mostLikelyCandidate None = None"
  by (simp add: mostLikelyCandidate_def split: list.splits)

section \<open>The entropy in exact arithmetic\<close>

text \<open>
  The counts that \<open>countFeedback\<close> collects are positive and add up to the number of
  candidates.
\<close>

lemma bump_total: "sum_list (map snd (bump key counts)) = Suc (sum_list (map snd counts))"
  by (induction counts) auto

lemma bump_positive: "\<forall>kc\<in>set counts. 0 < snd kc \<Longrightarrow> \<forall>kc\<in>set (bump key counts). 0 < snd kc"
  by (induction counts) (fastforce split: if_splits)+

lemma foldl_bump_total:
  "sum_list (map snd (foldl (\<lambda>counts ans. bump (key ans) counts) acc cs)) =
     sum_list (map snd acc) + length cs"
  by (induction cs arbitrary: acc) (simp_all add: bump_total)

lemma foldl_bump_positive:
  "\<forall>kc\<in>set acc. 0 < snd kc \<Longrightarrow>
     \<forall>kc\<in>set (foldl (\<lambda>counts ans. bump (key ans) counts) acc cs). 0 < snd kc"
proof (induction cs arbitrary: acc)
  case Nil
  then show ?case by simp
next
  case (Cons c cs)
  from Cons.prems have "\<forall>kc\<in>set (bump (key c) acc). 0 < snd kc"
    by (rule bump_positive)
  then show ?case
    using Cons.IH by simp
qed

lemma countFeedback_total: "sum_list (map snd (countFeedback g cs)) = length cs"
  unfolding countFeedback_def by (simp add: foldl_bump_total)

lemma countFeedback_positive: "kc \<in> set (countFeedback g cs) \<Longrightarrow> 0 < snd kc"
  unfolding countFeedback_def
  using foldl_bump_positive [of "[]" "\<lambda>ans. feedbackKey (feedbackFor g ans)" cs] by simp

text \<open>
  The value of the model, which adds the terms over the reals. Each count \<open>c\<close> lies between
  1 and \<open>n\<close>, so each term lies between 0 and \<open>c / n * log 2 n\<close>, and the terms add up to at
  most \<open>log 2 n\<close>. Claim C4 is about the value JavaScript computes in double precision,
  rounding the quotient, \<^verbatim>\<open>Math.log2\<close>, the product and the sum; the lemmas below say nothing
  about that rounding.
\<close>

lemma foldl_entropy:
  "foldl (\<lambda>entropy (k, c). entropy + F c) z counts = z + sum_list (map (\<lambda>kc. F (snd kc)) counts)"
  by (induction counts arbitrary: z) (auto simp: case_prod_beta add.assoc)

lemma sum_list_scaled:
  "sum_list (map (\<lambda>kc. (real (snd kc) / n) * L) counts) = (real (sum_list (map snd counts)) / n) * L"
  by (induction counts) (simp_all add: algebra_simps add_divide_distrib)

lemma entropy_term_bounds:
  fixes n :: real
  assumes "0 < c" "real c \<le> n"
  shows "0 \<le> - (real c / n) * log 2 (real c / n)"
    and "- (real c / n) * log 2 (real c / n) \<le> (real c / n) * log 2 n"
proof -
  from assms have n: "0 < n" and c: "1 \<le> real c" by auto
  then have q: "0 < real c / n" "real c / n \<le> 1"
    using assms by simp_all
  then have "0 \<le> - log 2 (real c / n)"
    by simp
  with q have "0 \<le> (real c / n) * (- log 2 (real c / n))"
    by (intro mult_nonneg_nonneg) simp_all
  then show "0 \<le> - (real c / n) * log 2 (real c / n)"
    by (simp only: mult_minus_left mult_minus_right)
  have "log 2 (real c / n) = log 2 (real c) - log 2 n"
    using n c by (simp add: log_divide)
  moreover have "0 \<le> log 2 (real c)"
    using c by simp
  ultimately have "- log 2 (real c / n) \<le> log 2 n"
    by simp
  then have "(real c / n) * (- log 2 (real c / n)) \<le> (real c / n) * log 2 n"
    using q by (intro mult_left_mono) simp_all
  then show "- (real c / n) * log 2 (real c / n) \<le> (real c / n) * log 2 n"
    by (simp only: mult_minus_left mult_minus_right)
qed

lemma computeEntropyForGuess_exact_bounds:
  assumes "cs \<noteq> []"
  shows "0 \<le> computeEntropyForGuess g (Some cs)"
    and "computeEntropyForGuess g (Some cs) \<le> log 2 (real (length cs))"
proof -
  let ?counts = "countFeedback g cs"
  let ?n = "real (length cs)"
  let ?F = "\<lambda>c. - (real c / ?n) * log 2 (real c / ?n)"
  have "computeEntropyForGuess g (Some cs) = foldl (\<lambda>entropy (k, c). entropy + ?F c) 0 ?counts"
    using assms by (simp add: computeEntropyForGuess_def Let_def)
  also have "\<dots> = 0 + sum_list (map (\<lambda>kc. ?F (snd kc)) ?counts)"
    by (rule foldl_entropy)
  finally have e: "computeEntropyForGuess g (Some cs) = sum_list (map (\<lambda>kc. ?F (snd kc)) ?counts)"
    by simp
  have le: "real (snd kc) \<le> ?n" if "kc \<in> set ?counts" for kc
  proof -
    from that have "snd kc \<in> set (map snd ?counts)" by simp
    then have "snd kc \<le> sum_list (map snd ?counts)"
      by (intro member_le_sum_list) simp_all
    then show ?thesis by (simp add: countFeedback_total)
  qed
  show "0 \<le> computeEntropyForGuess g (Some cs)"
    unfolding e
  proof (rule sum_list_nonneg)
    fix t
    assume "t \<in> set (map (\<lambda>kc. ?F (snd kc)) ?counts)"
    then obtain kc where kc: "kc \<in> set ?counts" and t: "t = ?F (snd kc)"
      by auto
    show "0 \<le> t"
      unfolding t using countFeedback_positive [OF kc] le [OF kc]
      by (rule entropy_term_bounds(1))
  qed
  have "sum_list (map (\<lambda>kc. ?F (snd kc)) ?counts) \<le>
        sum_list (map (\<lambda>kc. (real (snd kc) / ?n) * log 2 ?n) ?counts)"
  proof (rule sum_list_mono)
    fix kc
    assume kc: "kc \<in> set ?counts"
    show "?F (snd kc) \<le> (real (snd kc) / ?n) * log 2 ?n"
      using countFeedback_positive [OF kc] le [OF kc]
      by (rule entropy_term_bounds(2))
  qed
  also have "\<dots> = (real (sum_list (map snd ?counts)) / ?n) * log 2 ?n"
    by (rule sum_list_scaled)
  finally show "computeEntropyForGuess g (Some cs) \<le> log 2 ?n"
    using assms by (simp add: e countFeedback_total)
qed

lemma computeEntropyForGuess_exact_single:
  "computeEntropyForGuess g (Some [c]) = 0"
  using computeEntropyForGuess_exact_bounds [of "[c]" g] by simp

section \<open>The order of the suggestions\<close>

lemma insertBy_byBits: "insertBy byBits x ys = insort_key (\<lambda>s. - bits s) x ys"
  by (induction ys) (auto simp: byBits_def)

lemma array_sort_byBits: "array_sort byBits ent = sort_key (\<lambda>s. - bits s) ent"
proof -
  have "insertBy byBits = insort_key (\<lambda>s. - bits s)"
    by (intro ext) (rule insertBy_byBits)
  then show ?thesis
    by (simp add: array_sort_def sort_key_def)
qed

text \<open>
  Claim C7 as amended. For every list of suggestions, the selection step sorts it
  descending by bits and keeps suggestions with equal bits in the order in which they
  stand in the input (the sort is stable and has no second key), then takes the first 10.
  The output is a function of the input list, so the same on every call, but it depends on
  the order of the input.
\<close>

theorem selectTop_stable_descending:
  "selectTop ent = take 10 (array_sort byBits ent)
   \<and> sorted_wrt (\<lambda>s t. bits s \<ge> bits t) (array_sort byBits ent)
   \<and> mset (array_sort byBits ent) = mset ent
   \<and> filter (\<lambda>s. bits s = b) (array_sort byBits ent) = filter (\<lambda>s. bits s = b) ent"
proof -
  have "sorted (map (\<lambda>s. - bits s) (sort_key (\<lambda>s. - bits s) ent))"
    by (rule sorted_sort_key)
  then have "sorted_wrt (\<lambda>s t. bits s \<ge> bits t) (sort_key (\<lambda>s. - bits s) ent)"
    by (simp add: sorted_map)
  moreover have "filter (\<lambda>s. - bits s = - b) (sort_key (\<lambda>s. - bits s) ent) = filter (\<lambda>s. - bits s = - b) ent"
    by (rule sort_key_stable)
  ultimately show ?thesis
    by (simp add: selectTop_def array_sort_byBits)
qed

text \<open>
  Claim C7 says that suggestions with equal bits come out in lexicographic order of the
  guess word, whatever the order of the input. With equal bits \<open>slate\<close> stays before \<open>crane\<close>
  when it stands first in the input, and the two input orders of the same two suggestions
  give different outputs.
\<close>

theorem selectTop_ties_keep_input_order:
  "selectTop [\<lparr>guess_s = ''slate'', bits = 1\<rparr>, \<lparr>guess_s = ''crane'', bits = 1\<rparr>] =
     [\<lparr>guess_s = ''slate'', bits = 1\<rparr>, \<lparr>guess_s = ''crane'', bits = 1\<rparr>]
   \<and> selectTop [\<lparr>guess_s = ''crane'', bits = 1\<rparr>, \<lparr>guess_s = ''slate'', bits = 1\<rparr>] =
     [\<lparr>guess_s = ''crane'', bits = 1\<rparr>, \<lparr>guess_s = ''slate'', bits = 1\<rparr>]
   \<and> ''crane'' < ''slate''"
  by (simp add: selectTop_def array_sort_def byBits_def)

text \<open>
  The tie arises in the effect itself: for the dictionary \<open>slate, crane\<close> and no history
  both words score one bit (a half times \<open>log 2\<close> of a half, twice, which is also exact in
  double precision), and the effect lists \<open>slate\<close> first.
\<close>

lemma entropy_slate: "computeEntropyForGuess ''slate'' (Some [''slate'', ''crane'']) = 1"
proof -
  have c: "countFeedback ''slate'' [''slate'', ''crane''] = 
    [(''CORRECT|CORRECT|CORRECT|CORRECT|CORRECT'', 1), (''ABSENT|ABSENT|CORRECT|ABSENT|CORRECT'', 1)]"
    by code_simp
  show ?thesis
    by (simp add: computeEntropyForGuess_def c log_divide)
qed

lemma entropy_crane: "computeEntropyForGuess ''crane'' (Some [''slate'', ''crane'']) = 1"
proof -
  have c: "countFeedback ''crane'' [''slate'', ''crane''] = 
    [(''ABSENT|ABSENT|CORRECT|ABSENT|CORRECT'', 1), (''CORRECT|CORRECT|CORRECT|CORRECT|CORRECT'', 1)]"
    by code_simp
  show ?thesis
    by (simp add: computeEntropyForGuess_def c log_divide)
qed

lemma topGuesses_slate_crane: "topGuesses (Some [''slate'', ''crane'']) (Some []) = 
   [\<lparr>guess_s = ''slate'', bits = 1\<rparr>, \<lparr>guess_s = ''crane'', bits = 1\<rparr>]"
  by (simp add: topGuesses_def filterCandidates_def entropy_slate entropy_crane selectTop_def array_sort_def byBits_def)

end
